theory Spec2Isabelle
  imports Complex_Main "HOL-Library.Multiset"
begin

section \<open>Data model of ceph-read-bench.py\<close>

text \<open>
  A listing entry is an object of the pool with its key and the size that
  \<^verbatim>\<open>obj.stat()[0]\<close> reports. A read request is the dictionary
  \<^verbatim>\<open>dict(key=..., len=...)\<close> built by \<^verbatim>\<open>prepare_objs\<close>; a result slot is the
  dictionary \<^verbatim>\<open>dict(start=0.0, end=0.0, len=0, finish=False)\<close> of
  \<^verbatim>\<open>bench_test\<close>. The field \<^verbatim>\<open>end\<close> is written \<open>endt\<close> and the slot's
  \<^verbatim>\<open>len\<close> is written \<open>rlen\<close>. Time stamps are Python floats; they are modelled as
  exact reals.
\<close>

type_synonym cluster_object = "string \<times> nat"

record read_request =
  key :: string
  len :: nat

record read_result =
  start :: real
  endt :: real
  rlen :: nat
  finish :: bool

datatype py_error = ZeroDivisionError | IndexError | TypeError | ValueError | OverflowError

definition mk_request :: "cluster_object \<Rightarrow> read_request" where
  "mk_request obj = \<lparr>key = fst obj, len = snd obj\<rparr>"

text \<open>Python's \<^verbatim>\<open>int(x)\<close> on a float truncates towards zero.\<close>

definition py_int :: "real \<Rightarrow> int" where
  "py_int x = (if 0 \<le> x then \<lfloor>x\<rfloor> else \<lceil>x\<rceil>)"

section \<open>The sampler: prepare_objs\<close>

subsection \<open>Uniform mode\<close>

text \<open>
  The \<^verbatim>\<open>for\<close> loop of lines 43-47. \<open>Inl objs\<close> is the early
  \<^verbatim>\<open>return objs\<close> of line 47; \<open>Inr (objs, count)\<close> is the state with which
  the loop falls through to line 48.
\<close>

fun uniform_scan ::
  "cluster_object list \<Rightarrow> nat \<Rightarrow> read_request list \<Rightarrow> nat
    \<Rightarrow> read_request list + read_request list \<times> nat" where
  "uniform_scan [] reads_num objs cnt = Inr (objs, cnt)"
| "uniform_scan (obj # rest) reads_num objs cnt =
     (let objs' = objs @ [mk_request obj]; cnt' = cnt + 1
      in if cnt' = reads_num then Inl objs'
         else uniform_scan rest reads_num objs' cnt')"

text \<open>
  The \<^verbatim>\<open>while\<close> loop of lines 49-52. \<^verbatim>\<open>count % obj_num\<close> raises
  ZeroDivisionError when the listing is empty, and \<^verbatim>\<open>objs[idx]\<close> raises IndexError
  out of range.
\<close>

function uniform_cycle ::
  "nat \<Rightarrow> nat \<Rightarrow> read_request list \<Rightarrow> nat \<Rightarrow> py_error + read_request list" where
  "uniform_cycle reads_num obj_num objs cnt =
     (if cnt < reads_num then
        (if obj_num = 0 then Inl ZeroDivisionError
         else let idx = cnt mod obj_num
              in if idx < length objs
                 then uniform_cycle reads_num obj_num
                        (objs @ [\<lparr>key = key (objs ! idx), len = len (objs ! idx)\<rparr>])
                        (cnt + 1)
                 else Inl IndexError)
      else Inr objs)"
  by pat_completeness auto
termination
  by (relation "measure (\<lambda>(reads_num, obj_num, objs, cnt). reads_num - cnt)") auto

declare uniform_cycle.simps [simp del]

text \<open>
  The \<^verbatim>\<open>else\<close> branch of \<^verbatim>\<open>prepare_objs\<close>. The parameter \<open>shuffle_objs\<close>
  is the rearrangement that \<^verbatim>\<open>random.shuffle(objs)\<close> of line 54 performs.
\<close>

definition prepare_objs_uniform ::
  "(read_request list \<Rightarrow> read_request list) \<Rightarrow> cluster_object list \<Rightarrow> nat
    \<Rightarrow> py_error + read_request list" where
  "prepare_objs_uniform shuffle_objs cluster_objects reads_num =
     (case uniform_scan cluster_objects reads_num [] 0 of
        Inl objs \<Rightarrow> Inr objs
      | Inr (objs, cnt) \<Rightarrow>
          (case uniform_cycle reads_num cnt objs cnt of
             Inl e \<Rightarrow> Inl e
           | Inr objs' \<Rightarrow> Inr (shuffle_objs objs')))"

subsection \<open>Zipf mode\<close>













section \<open>The dispatcher: obj_aio_read and bench_test\<close>

text \<open>
  \<^verbatim>\<open>obj_aio_read\<close> stamps the start time into slot \<open>tid\<close> and issues
  \<^verbatim>\<open>ioctx.aio_read(obj['key'], obj['len'], 0, aio_read_complete)\<close>; the model returns
  the slots and the arguments of the issued read. \<open>now\<close> is the value of
  \<^verbatim>\<open>time.time()\<close>.
\<close>

definition obj_aio_read ::
  "nat \<Rightarrow> real \<Rightarrow> read_result list \<Rightarrow> read_request
    \<Rightarrow> py_error + read_result list \<times> (string \<times> nat \<times> nat)" where
  "obj_aio_read tid now read_res obj =
     (if tid < length read_res
      then Inr (read_res[tid := (read_res ! tid)\<lparr>start := now\<rparr>], (key obj, len obj, 0))
      else Inl IndexError)"

text \<open>
  The completion callback \<^verbatim>\<open>aio_read_complete(_, data)\<close> of lines 59-62. It writes
  the slot in three statements; \<^verbatim>\<open>len(data)\<close> raises TypeError when the read
  delivered no data (\<^verbatim>\<open>None\<close>), after the first statement has run. The result
  is the raised error, if any, and the slots as the callback leaves them.
\<close>

definition aio_read_complete ::
  "nat \<Rightarrow> real \<Rightarrow> string option \<Rightarrow> read_result list
    \<Rightarrow> py_error option \<times> read_result list" where
  "aio_read_complete tid now data read_res =
     (if tid < length read_res then
        (let r1 = read_res[tid := (read_res ! tid)\<lparr>endt := now\<rparr>]
         in case data of
              None \<Rightarrow> (Some TypeError, r1)
            | Some d \<Rightarrow>
                (let r2 = r1[tid := (r1 ! tid)\<lparr>rlen := length d\<rparr>];
                     r3 = r2[tid := (r2 ! tid)\<lparr>finish := True\<rparr>]
                 in (None, r3)))
      else (Some IndexError, read_res))"

text \<open>Lines 121-123: the slots \<^verbatim>\<open>read_res\<close> as \<^verbatim>\<open>bench_test\<close> creates them.\<close>

definition bench_slots :: "nat \<Rightarrow> read_result list" where
  "bench_slots reads_num =
     replicate reads_num \<lparr>start = 0, endt = 0, rlen = 0, finish = False\<rparr>"



subsection \<open>The worker pool\<close>

text \<open>
  The interleavings of lines 126-130. \<^verbatim>\<open>ThreadPoolExecutor(max_workers=W)\<close> queues
  the submitted calls and runs at most \<open>W\<close> of them at a time. A call of
  \<^verbatim>\<open>obj_aio_read\<close> stamps the slot, issues the asynchronous read, which returns a
  completion at once, and returns; the read completes later, when the library runs the
  callback. The state records the number of submitted calls, the queue, the calls on a
  worker before and after their \<^verbatim>\<open>aio_read\<close>, the reads issued and not yet
  completed, and the completed reads.
\<close>

record pool_state =
  submitted :: nat
  queued :: "nat list"
  running :: "nat list"
  returning :: "nat list"
  outstanding :: "nat list"
  completed :: "nat list"

datatype pool_event = Submit | Take | Issue nat | Return nat | Complete nat

definition pool_init :: pool_state where
  "pool_init = \<lparr>submitted = 0, queued = [], running = [], returning = [],
                 outstanding = [], completed = []\<rparr>"

fun pool_step :: "nat \<Rightarrow> nat \<Rightarrow> pool_event \<Rightarrow> pool_state \<Rightarrow> pool_state option" where
  "pool_step reads_num threads_num Submit s =
     (if submitted s < reads_num
      then Some (s\<lparr>queued := queued s @ [submitted s], submitted := submitted s + 1\<rparr>)
      else None)"
| "pool_step reads_num threads_num Take s =
     (case queued s of
        [] \<Rightarrow> None
      | t # q \<Rightarrow>
          if length (running s) + length (returning s) < threads_num
          then Some (s\<lparr>queued := q, running := running s @ [t]\<rparr>)
          else None)"
| "pool_step reads_num threads_num (Issue t) s =
     (if t \<in> set (running s)
      then Some (s\<lparr>running := removeAll t (running s),
                    returning := returning s @ [t],
                    outstanding := outstanding s @ [t]\<rparr>)
      else None)"
| "pool_step reads_num threads_num (Return t) s =
     (if t \<in> set (returning s)
      then Some (s\<lparr>returning := removeAll t (returning s)\<rparr>)
      else None)"
| "pool_step reads_num threads_num (Complete t) s =
     (if t \<in> set (outstanding s)
      then Some (s\<lparr>outstanding := removeAll t (outstanding s),
                    completed := completed s @ [t]\<rparr>)
      else None)"

fun pool_run :: "nat \<Rightarrow> nat \<Rightarrow> pool_event list \<Rightarrow> pool_state \<Rightarrow> pool_state option" where
  "pool_run reads_num threads_num [] s = Some s"
| "pool_run reads_num threads_num (ev # evs) s =
     (case pool_step reads_num threads_num ev s of
        None \<Rightarrow> None
      | Some s' \<Rightarrow> pool_run reads_num threads_num evs s')"

text \<open>
  The bound as the specification words it: no more than \<open>W\<close> reads issued and not
  yet completed.
\<close>

definition spec_outstanding_bounded :: "nat \<Rightarrow> pool_state \<Rightarrow> bool" where
  "spec_outstanding_bounded threads_num s \<longleftrightarrow> length (outstanding s) \<le> threads_num"

section \<open>The aggregator: collect_and_print_statistics\<close>

text \<open>
  The loop of lines 95-101 over the slots, with the accumulators \<^verbatim>\<open>base_t\<close>,
  \<^verbatim>\<open>end\<close> (written \<open>ends\<close>), \<^verbatim>\<open>bw_mbs\<close> and \<^verbatim>\<open>lat\<close>. The division of
  line 100 raises ZeroDivisionError when \<^verbatim>\<open>r['end'] - r['start']\<close> is zero.
\<close>

fun collect_loop ::
  "read_result list \<Rightarrow> real \<Rightarrow> real list \<Rightarrow> real list \<Rightarrow> real list
    \<Rightarrow> py_error + real \<times> real list \<times> real list \<times> real list" where
  "collect_loop [] base_t ends bw_mbs lat = Inr (base_t, ends, bw_mbs, lat)"
| "collect_loop (r # rest) base_t ends bw_mbs lat =
     (if \<not> finish r then collect_loop rest base_t ends bw_mbs lat
      else
        let base_t' = (if base_t = 0 \<or> start r < base_t then start r else base_t);
            ends' = ends @ [endt r]
        in if endt r - start r = 0 then Inl ZeroDivisionError
           else collect_loop rest base_t' ends'
                  (bw_mbs @ [real (rlen r) / (endt r - start r) / (1000 * 1000)])
                  (lat @ [endt r - start r]))"

text \<open>
  The loop of lines 110-111. A Python list index may be negative, counting from the
  end, and raises IndexError outside \<open>-len .. len - 1\<close>.
\<close>

fun count_iops :: "real list \<Rightarrow> real \<Rightarrow> int list \<Rightarrow> py_error + int list" where
  "count_iops [] base_t iops = Inr iops"
| "count_iops (e # es) base_t iops =
     (let i = py_int (e - base_t); n = int (length iops)
      in if - n \<le> i \<and> i < n
         then (let j = nat (if i < 0 then n + i else i)
               in count_iops es base_t (iops[j := iops ! j + 1]))
         else Inl IndexError)"

text \<open>
  Lines 90-111: the three lists handed to \<^verbatim>\<open>print_statistics\<close>, in the order
  \<^verbatim>\<open>bw_mbs\<close>, \<^verbatim>\<open>iops\<close>, \<^verbatim>\<open>lat\<close>.
\<close>

definition collect_statistics ::
  "read_result list \<Rightarrow> py_error + real list \<times> int list \<times> real list" where
  "collect_statistics res =
     (case collect_loop res 0 [] [] [] of
        Inl e \<Rightarrow> Inl e
      | Inr (base_t, ends, bw_mbs, lat) \<Rightarrow>
          if length bw_mbs = 0 then Inr (bw_mbs @ [0], [0], lat @ [0])
          else if ends = [] then Inl ValueError
          else
            let total_lat = py_int (Max (set ends) - base_t) + 1;
                iops = replicate (nat total_lat) 0
            in (case count_iops ends base_t iops of
                  Inl e \<Rightarrow> Inl e
                | Inr iops' \<Rightarrow> Inr (bw_mbs, iops', lat)))"

text \<open>
  \<^verbatim>\<open>print_statistics\<close>: the nine numbers it formats. \<^verbatim>\<open>min\<close> and \<^verbatim>\<open>max\<close>
  raise ValueError on an empty list.
\<close>

record report =
  min_bw :: real
  max_bw :: real
  avg_bw :: real
  min_iops :: int
  max_iops :: int
  avg_iops :: real
  min_lat :: real
  max_lat :: real
  avg_lat :: real

definition print_statistics :: "real list \<Rightarrow> int list \<Rightarrow> real list \<Rightarrow> py_error + report" where
  "print_statistics bw_mbs iops lat =
     (if bw_mbs = [] \<or> iops = [] \<or> lat = [] then Inl ValueError
      else Inr \<lparr>min_bw = Min (set bw_mbs), max_bw = Max (set bw_mbs),
                avg_bw = sum_list bw_mbs / real (length bw_mbs),
                min_iops = Min (set iops), max_iops = Max (set iops),
                avg_iops = real_of_int (sum_list iops) / real (length iops),
                min_lat = Min (set lat), max_lat = Max (set lat),
                avg_lat = sum_list lat / real (length lat)\<rparr>)"

definition collect_and_print_statistics :: "read_result list \<Rightarrow> py_error + report" where
  "collect_and_print_statistics res =
     (case collect_statistics res of
        Inl e \<Rightarrow> Inl e
      | Inr (bw_mbs, iops, lat) \<Rightarrow> print_statistics bw_mbs iops lat)"

text \<open>
  The number of IOPS buckets as the specification words it:
  \<open>ceil(max(endTime) - min(startTime)) + 1\<close> over the completed slots.
\<close>

definition spec_bucket_count :: "read_result list \<Rightarrow> int" where
  "spec_bucket_count res =
     \<lceil>Max (set (map endt (filter finish res))) - Min (set (map start (filter finish res)))\<rceil> + 1"

section \<open>Properties of the uniform sampler\<close>

lemma uniform_scan_early:
  "cnt < reads_num \<Longrightarrow> reads_num \<le> cnt + length xs \<Longrightarrow>
   uniform_scan xs reads_num objs cnt
     = Inl (objs @ map mk_request (take (reads_num - cnt) xs))"
proof (induction xs arbitrary: objs cnt)
  case Nil
  then show ?case by simp
next
  case (Cons x xs)
  show ?case
  proof (cases "cnt + 1 = reads_num")
    case True
    then have "reads_num - cnt = Suc 0" by simp
    with True show ?thesis by simp
  next
    case False
    with Cons.prems have lt: "cnt + 1 < reads_num" and le: "reads_num \<le> (cnt + 1) + length xs"
      by simp_all
    have d: "reads_num - cnt = Suc (reads_num - (cnt + 1))"
      using lt by simp
    show ?thesis
      using False Cons.IH [OF lt le, of "objs @ [mk_request x]"]
      by (simp add: d Let_def)
  qed
qed

lemma uniform_scan_through:
  "cnt + length xs < reads_num \<Longrightarrow>
   uniform_scan xs reads_num objs cnt
     = Inr (objs @ map mk_request xs, cnt + length xs)"
  by (induction xs arbitrary: objs cnt) (simp_all add: Let_def)

lemma uniform_cycle_closed:
  assumes m: "0 < m" "length base = m"
  shows "objs = map (\<lambda>i. base ! (i mod m)) [0..<cnt] \<Longrightarrow> m \<le> cnt \<Longrightarrow> cnt \<le> n \<Longrightarrow>
    uniform_cycle n m objs cnt = Inr (map (\<lambda>i. base ! (i mod m)) [0..<n])"
proof (induction "n - cnt" arbitrary: objs cnt)
  case 0
  then have "cnt = n" by simp
  with 0 show ?case by (simp add: uniform_cycle.simps)
next
  case (Suc d)
  then have lt: "cnt < n" by simp
  let ?idx = "cnt mod m"
  have idx: "?idx < length objs" using m Suc.prems
    by (simp add: less_le_trans [OF mod_less_divisor])
  have nth: "objs ! ?idx = base ! ?idx"
    using Suc.prems(1) idx by simp
  have ext: "objs @ [\<lparr>key = key (objs ! ?idx), len = len (objs ! ?idx)\<rparr>]
      = map (\<lambda>i. base ! (i mod m)) [0..<cnt + 1]"
    using Suc.prems(1) nth by simp
  have step: "uniform_cycle n m objs cnt
      = uniform_cycle n m (objs @ [\<lparr>key = key (objs ! ?idx), len = len (objs ! ?idx)\<rparr>]) (cnt + 1)"
    using lt m(1) idx by (subst uniform_cycle.simps) (simp add: Let_def)
  have "uniform_cycle n m (objs @ [\<lparr>key = key (objs ! ?idx), len = len (objs ! ?idx)\<rparr>]) (cnt + 1)
      = Inr (map (\<lambda>i. base ! (i mod m)) [0..<n])"
    using Suc.hyps(2) Suc.prems lt by (intro Suc.hyps(1) ext) simp_all
  with step show ?case by simp
qed

lemma count_cycle:
  assumes "0 < m" "j < m"
  shows "n div m \<le> length (filter (\<lambda>i. i mod m = j) [0..<n])"
proof -
  let ?S = "{i. i < n \<and> i mod m = j}"
  have len: "length (filter (\<lambda>i. i mod m = j) [0..<n]) = card ?S"
    by (auto simp: length_filter_conv_card intro!: arg_cong [where f = card])
  have inj: "inj_on (\<lambda>k. j + k * m) {..<n div m}"
    using assms(1) by (auto simp: inj_on_def)
  have sub: "(\<lambda>k. j + k * m) ` {..<n div m} \<subseteq> ?S"
  proof
    fix i assume "i \<in> (\<lambda>k. j + k * m) ` {..<n div m}"
    then obtain k where k: "k < n div m" "i = j + k * m" by auto
    from k(1) have "Suc k * m \<le> n div m * m" by (intro mult_le_mono1) simp
    also have "\<dots> \<le> n" by simp
    finally have "j + k * m < n" using assms(2) by simp
    moreover have "(j + k * m) mod m = j" using assms(2) by simp
    ultimately show "i \<in> ?S" using k(2) by simp
  qed
  have "card {..<n div m} = card ((\<lambda>k. j + k * m) ` {..<n div m})"
    using inj by (simp add: card_image)
  also have "\<dots> \<le> card ?S"
    using sub by (intro card_mono) simp_all
  finally show ?thesis using len by simp
qed

lemma length_filter_mono:
  "(\<And>x. P x \<Longrightarrow> Q x) \<Longrightarrow> length (filter P xs) \<le> length (filter Q xs)"
  by (induction xs) auto

lemma count_mset_map:
  "count (mset (map f xs)) y = length (filter (\<lambda>i. f i = y) xs)"
  by (induction xs) auto

lemma prepare_objs_uniform_early:
  assumes "1 \<le> reads_num" "reads_num \<le> length cluster_objects"
  shows "prepare_objs_uniform shuffle_objs cluster_objects reads_num
    = Inr (map mk_request (take reads_num cluster_objects))"
  using assms uniform_scan_early [of 0 reads_num cluster_objects "[]"]
  by (simp add: prepare_objs_uniform_def)

lemma prepare_objs_uniform_wrap:
  assumes "cluster_objects \<noteq> []" "length cluster_objects < reads_num"
  shows "prepare_objs_uniform shuffle_objs cluster_objects reads_num
    = Inr (shuffle_objs (map (\<lambda>i. mk_request (cluster_objects ! (i mod length cluster_objects)))
             [0..<reads_num]))"
proof -
  let ?m = "length cluster_objects"
  let ?base = "map mk_request cluster_objects"
  have scan: "uniform_scan cluster_objects reads_num [] 0 = Inr (?base, ?m)"
    using assms(2) uniform_scan_through [of 0 cluster_objects reads_num "[]"] by simp
  have base: "?base = map (\<lambda>i. ?base ! (i mod ?m)) [0..<?m]"
    by (intro nth_equalityI) simp_all
  have "uniform_cycle reads_num ?m ?base ?m = Inr (map (\<lambda>i. ?base ! (i mod ?m)) [0..<reads_num])"
    using assms by (intro uniform_cycle_closed base) simp_all
  also have "map (\<lambda>i. ?base ! (i mod ?m)) [0..<reads_num]
      = map (\<lambda>i. mk_request (cluster_objects ! (i mod ?m))) [0..<reads_num]"
    using assms(1) by simp
  finally show ?thesis
    using scan by (simp add: prepare_objs_uniform_def)
qed

text \<open>
  Claim C7. In uniform mode with a non-empty listing of \<open>M\<close> objects and \<open>N > M\<close>
  requests, the sampler returns \<open>N\<close> requests, every listing object is requested at
  least \<open>N div M\<close> times, and the requests are those of the listing indices
  \<open>i mod M\<close> for \<open>i < N\<close>, rearranged by the final shuffle.
\<close>

theorem uniform_wrap_cycles:
  assumes "\<forall>xs. mset (shuffle_objs xs) = mset xs"
    and "cluster_objects \<noteq> []" and "length cluster_objects < reads_num"
  shows "\<exists>objs. prepare_objs_uniform shuffle_objs cluster_objects reads_num = Inr objs
     \<and> length objs = reads_num
     \<and> (\<forall>obj \<in> set cluster_objects.
           reads_num div length cluster_objects \<le> count (mset objs) (mk_request obj))
     \<and> mset objs = mset (map (\<lambda>i. mk_request (cluster_objects ! (i mod length cluster_objects)))
                         [0..<reads_num])"
proof -
  let ?m = "length cluster_objects"
  let ?pre = "map (\<lambda>i. mk_request (cluster_objects ! (i mod ?m))) [0..<reads_num]"
  have res: "prepare_objs_uniform shuffle_objs cluster_objects reads_num = Inr (shuffle_objs ?pre)"
    using assms(2,3) by (rule prepare_objs_uniform_wrap)
  have ms: "mset (shuffle_objs ?pre) = mset ?pre"
    using assms(1) by simp
  have len: "length (shuffle_objs ?pre) = reads_num"
    using ms mset_eq_length by fastforce
  have cnt: "reads_num div ?m \<le> count (mset (shuffle_objs ?pre)) (mk_request obj)"
    if "obj \<in> set cluster_objects" for obj
  proof -
    from that obtain j where j: "j < ?m" "cluster_objects ! j = obj"
      by (auto simp: in_set_conv_nth)
    have "reads_num div ?m \<le> length (filter (\<lambda>i. i mod ?m = j) [0..<reads_num])"
      using j(1) assms(2) by (intro count_cycle) simp_all
    also have "\<dots> \<le> length (filter (\<lambda>i. mk_request (cluster_objects ! (i mod ?m)) = mk_request obj)
                        [0..<reads_num])"
      using j(2) by (intro length_filter_mono) simp   
    also have "\<dots> = count (mset ?pre) (mk_request obj)"
      by (rule count_mset_map [symmetric])
    finally show ?thesis using ms by simp
  qed
  show ?thesis using res ms len cnt by simp
qed

theorem uniform_wrap_cycles_witness:
  "\<exists>objs. prepare_objs_uniform rev [(''a'', 10), (''b'', 20)] 5 = Inr objs
     \<and> length objs = 5
     \<and> 2 \<le> count (mset objs) \<lparr>key = ''a'', len = 10\<rparr>
     \<and> 2 \<le> count (mset objs) \<lparr>key = ''b'', len = 20\<rparr>"
proof -
  have d: "(5::nat) div Suc (Suc 0) = 2" by code_simp
  show ?thesis
    using uniform_wrap_cycles [of rev "[(''a'', 10), (''b'', 20)]" 5]
    by (auto simp: mk_request_def d)
qed

text \<open>
  Claim C6. In uniform mode with \<open>1 \<le> N \<le> M\<close> the sampler's output is a permutation
  of the first \<open>N\<close> listing entries: it has the same entries with the same
  multiplicities, so when the listing has no repeated entry each of the first \<open>N\<close>
  entries appears exactly once.
\<close>

theorem uniform_prefix_permutation:
  assumes "1 \<le> reads_num" and "reads_num \<le> length cluster_objects"
  shows "\<exists>objs. prepare_objs_uniform shuffle_objs cluster_objects reads_num = Inr objs
     \<and> mset objs = mset (map mk_request (take reads_num cluster_objects))
     \<and> (distinct cluster_objects \<longrightarrow>
          (\<forall>obj \<in> set (take reads_num cluster_objects).
             count (mset objs) (mk_request obj) = 1))"
proof -
  let ?out = "map mk_request (take reads_num cluster_objects)"
  have res: "prepare_objs_uniform shuffle_objs cluster_objects reads_num = Inr ?out"
    using assms by (rule prepare_objs_uniform_early)
  have inj: "inj mk_request"
    by (auto simp: inj_on_def mk_request_def)
  have "count (mset ?out) (mk_request obj) = 1"
    if d: "distinct cluster_objects" and o: "obj \<in> set (take reads_num cluster_objects)" for obj
  proof -
    have "distinct ?out"
      using d inj_on_subset [OF inj subset_UNIV] by (simp add: distinct_map)
    moreover have "mk_request obj \<in> set ?out"
      using o by simp
    ultimately show ?thesis
      by (metis distinct_count_atmost_1)
  qed
  with res show ?thesis by simp
qed

theorem uniform_prefix_permutation_witness:
  "\<exists>objs. prepare_objs_uniform rev [(''a'', 10), (''b'', 20), (''c'', 30)] 2 = Inr objs
     \<and> mset objs = {#\<lparr>key = ''a'', len = 10\<rparr>, \<lparr>key = ''b'', len = 20\<rparr>#}
     \<and> count (mset objs) \<lparr>key = ''a'', len = 10\<rparr> = 1
     \<and> count (mset objs) \<lparr>key = ''b'', len = 20\<rparr> = 1"
  using uniform_prefix_permutation [of 2 "[(''a'', 10), (''b'', 20), (''c'', 30)]" rev]
  by (simp add: mk_request_def)

text \<open>
  Claim C9. In uniform mode with \<open>1 \<le> N \<le> M\<close> the early return of line 47 hands
  back the first \<open>N\<close> listing entries in listing order; the shuffle of line 54 is
  not reached, so the result is the same whatever the shuffle would have done.
\<close>

theorem uniform_early_return_in_order:
  assumes "1 \<le> reads_num" and "reads_num \<le> length cluster_objects"
  shows "prepare_objs_uniform shuffle_objs cluster_objects reads_num
           = Inr (map mk_request (take reads_num cluster_objects))
     \<and> prepare_objs_uniform shuffle_objs cluster_objects reads_num
           = prepare_objs_uniform shuffle_objs' cluster_objects reads_num"
  using assms by (simp add: prepare_objs_uniform_early)

theorem uniform_early_return_in_order_witness:
  "prepare_objs_uniform rev [(''x'', 4), (''y'', 8), (''z'', 15)] 2
     = Inr [\<lparr>key = ''x'', len = 4\<rparr>, \<lparr>key = ''y'', len = 8\<rparr>]
   \<and> prepare_objs_uniform rev [(''x'', 4), (''y'', 8), (''z'', 15)] 2
     = prepare_objs_uniform (\<lambda>xs. xs) [(''x'', 4), (''y'', 8), (''z'', 15)] 2"
  using uniform_early_return_in_order [of 2 "[(''x'', 4), (''y'', 8), (''z'', 15)]" rev "\<lambda>xs. xs"]
  by (simp add: mk_request_def prepare_objs_uniform_def)

section \<open>Properties of the aggregator\<close>

lemma collect_loop_filter:
  "collect_loop res base_t ends bw_mbs lat
     = collect_loop (filter finish res) base_t ends bw_mbs lat"
  by (induction res arbitrary: base_t ends bw_mbs lat) (simp_all add: Let_def)

lemma collect_loop_none:
  "\<forall>r \<in> set res. \<not> finish r \<Longrightarrow>
   collect_loop res base_t ends bw_mbs lat = Inr (base_t, ends, bw_mbs, lat)"
  by (induction res) simp_all

text \<open>
  Claim C8. When no slot is completed the aggregator hands the lists \<open>[0]\<close>,
  \<open>[0]\<close>, \<open>[0]\<close> to the report, and the report is computed without an error: every
  minimum, maximum and average is zero.
\<close>

theorem no_completed_slots_degenerate:
  assumes "\<forall>r \<in> set res. \<not> finish r"
  shows "collect_statistics res = Inr ([0], [0], [0])
     \<and> collect_and_print_statistics res
         = Inr \<lparr>min_bw = 0, max_bw = 0, avg_bw = 0, min_iops = 0, max_iops = 0,
                avg_iops = 0, min_lat = 0, max_lat = 0, avg_lat = 0\<rparr>"
proof -
  have "collect_statistics res = Inr ([0], [0], [0])"
    using collect_loop_none [OF assms] by (simp add: collect_statistics_def)
  then show ?thesis
    by (simp add: collect_and_print_statistics_def print_statistics_def)
qed

theorem no_completed_slots_degenerate_witness:
  "collect_statistics
     [\<lparr>start = 5, endt = 0, rlen = 0, finish = False\<rparr>,
      \<lparr>start = 0, endt = 0, rlen = 0, finish = False\<rparr>] = Inr ([0], [0], [0])
   \<and> collect_and_print_statistics
     [\<lparr>start = 5, endt = 0, rlen = 0, finish = False\<rparr>,
      \<lparr>start = 0, endt = 0, rlen = 0, finish = False\<rparr>]
       = Inr \<lparr>min_bw = 0, max_bw = 0, avg_bw = 0, min_iops = 0, max_iops = 0,
              avg_iops = 0, min_lat = 0, max_lat = 0, avg_lat = 0\<rparr>"
  using no_completed_slots_degenerate
    [of "[\<lparr>start = 5, endt = 0, rlen = 0, finish = False\<rparr>,
          \<lparr>start = 0, endt = 0, rlen = 0, finish = False\<rparr>]"]
  by simp

lemma collect_loop_total:
  "\<forall>r \<in> set res. finish r \<longrightarrow> endt r \<noteq> start r \<Longrightarrow>
   \<exists>acc. collect_loop res base_t ends bw_mbs lat = Inr acc"
  by (induction res arbitrary: base_t ends bw_mbs lat) (simp_all add: Let_def)

lemma collect_loop_zero_interval:
  "\<exists>r \<in> set res. finish r \<and> endt r = start r \<Longrightarrow>
   collect_loop res base_t ends bw_mbs lat = Inl ZeroDivisionError"
proof (induction res arbitrary: base_t ends bw_mbs lat)
  case Nil
  then show ?case by simp
next
  case (Cons r res)
  show ?case
  proof (cases "finish r \<and> endt r = start r")
    case True
    then show ?thesis by simp
  next
    case False
    with Cons.prems have "\<exists>r \<in> set res. finish r \<and> endt r = start r" by auto
    then show ?thesis using Cons.IH by (simp add: Let_def)
  qed
qed

lemma collect_loop_errors:
  "collect_loop res base_t ends bw_mbs lat = Inl e \<Longrightarrow> e = ZeroDivisionError"
  by (induction res arbitrary: base_t ends bw_mbs lat) (auto simp: Let_def split: if_splits)

lemma count_iops_errors:
  "count_iops es base_t iops = Inl e \<Longrightarrow> e = IndexError"
  by (induction es arbitrary: iops) (auto simp: Let_def split: if_splits)

lemma print_statistics_errors:
  "print_statistics bw_mbs iops lat = Inl e \<Longrightarrow> e = ValueError"
  by (auto simp: print_statistics_def split: if_splits)

text \<open>
  Claim C10. Line 100 divides by \<open>endt r - start r\<close> without a guard. When every
  completed slot ends strictly after it starts, the loop over the slots returns its
  accumulators and the aggregator does not raise ZeroDivisionError; when some completed
  slot ends exactly when it starts, the aggregator raises ZeroDivisionError.
\<close>

theorem bandwidth_division_total:
  "((\<forall>r \<in> set res. finish r \<longrightarrow> start r < endt r) \<longrightarrow>
      (\<exists>acc. collect_loop res 0 [] [] [] = Inr acc)
      \<and> collect_and_print_statistics res \<noteq> Inl ZeroDivisionError)
   \<and> ((\<exists>r \<in> set res. finish r \<and> endt r = start r) \<longrightarrow>
      collect_and_print_statistics res = Inl ZeroDivisionError)"
proof (intro conjI impI)
  assume pre: "\<forall>r \<in> set res. finish r \<longrightarrow> start r < endt r"
  then have ne: "\<forall>r \<in> set res. finish r \<longrightarrow> endt r \<noteq> start r" by auto
  from collect_loop_total [OF ne]
  show "\<exists>acc. collect_loop res 0 [] [] [] = Inr acc" .
  then obtain acc where acc: "collect_loop res 0 [] [] [] = Inr acc" ..
  show "collect_and_print_statistics res \<noteq> Inl ZeroDivisionError"
  proof
    assume "collect_and_print_statistics res = Inl ZeroDivisionError"
    then show False
      using acc
      by (auto simp: collect_and_print_statistics_def collect_statistics_def Let_def
          split: sum.splits prod.splits if_splits
          dest: count_iops_errors print_statistics_errors)
  qed
next
  assume "\<exists>r \<in> set res. finish r \<and> endt r = start r"
  from collect_loop_zero_interval [OF this]
  show "collect_and_print_statistics res = Inl ZeroDivisionError"
    by (simp add: collect_and_print_statistics_def collect_statistics_def)
qed

theorem bandwidth_division_total_witness:
  "(\<exists>acc. collect_loop [\<lparr>start = 1, endt = 3, rlen = 8, finish = True\<rparr>] 0 [] [] [] = Inr acc)
   \<and> collect_and_print_statistics [\<lparr>start = 1, endt = 3, rlen = 8, finish = True\<rparr>]
        \<noteq> Inl ZeroDivisionError
   \<and> collect_and_print_statistics [\<lparr>start = 2, endt = 2, rlen = 8, finish = True\<rparr>]
        = Inl ZeroDivisionError"
  using bandwidth_division_total [of "[\<lparr>start = 1, endt = 3, rlen = 8, finish = True\<rparr>]"]
    bandwidth_division_total [of "[\<lparr>start = 2, endt = 2, rlen = 8, finish = True\<rparr>]"]
  by simp

lemma py_int_nonneg: "0 \<le> x \<Longrightarrow> py_int x = \<lfloor>x\<rfloor>"
  by (simp add: py_int_def)

lemma collect_loop_finished:
  assumes "\<forall>r \<in> set ds. finish r \<and> start r \<noteq> 0 \<and> endt r \<noteq> start r" and "b \<noteq> 0"
  shows "collect_loop ds b ends bw_mbs lat
     = Inr (fold min (map start ds) b, ends @ map endt ds,
            bw_mbs @ map (\<lambda>r. real (rlen r) / (endt r - start r) / (1000 * 1000)) ds,
            lat @ map (\<lambda>r. endt r - start r) ds)"
  using assms
proof (induction ds arbitrary: b ends bw_mbs lat)
  case Nil
  then show ?case by simp
next
  case (Cons r ds)
  let ?b' = "if b = 0 \<or> start r < b then start r else b"
  have b': "?b' = min (start r) b" using Cons.prems(2) by (simp add: min_def)
  have nz: "min (start r) b \<noteq> 0" using Cons.prems by (simp add: min_def)
  have rest: "\<forall>r \<in> set ds. finish r \<and> start r \<noteq> 0 \<and> endt r \<noteq> start r"
    using Cons.prems(1) by simp
  have r: "finish r" "endt r - start r \<noteq> 0" using Cons.prems(1) by simp_all
  show ?case
    using r b' Cons.IH [OF rest nz] by (simp add: Let_def)
qed

lemma collect_loop_base:
  assumes "\<forall>r \<in> set ds. finish r \<and> start r \<noteq> 0 \<and> endt r \<noteq> start r" and "ds \<noteq> []"
  shows "collect_loop ds 0 [] [] []
     = Inr (Min (set (map start ds)), map endt ds,
            map (\<lambda>r. real (rlen r) / (endt r - start r) / (1000 * 1000)) ds,
            map (\<lambda>r. endt r - start r) ds)"
proof -
  from assms(2) obtain r rest where ds: "ds = r # rest" by (cases ds) auto
  have r: "finish r" "endt r - start r \<noteq> 0" "start r \<noteq> 0" using assms(1) ds by simp_all
  have rest: "\<forall>r \<in> set rest. finish r \<and> start r \<noteq> 0 \<and> endt r \<noteq> start r"
    using assms(1) ds by simp
  have m: "fold min (map start rest) (start r) = Min (set (map start ds))"
    unfolding ds by (simp only: list.map Min.set_eq_fold)
  show ?thesis
    using r collect_loop_finished [OF rest r(3)] m by (simp add: ds Let_def)
qed

lemma count_iops_buckets:
  assumes "\<forall>e \<in> set es. 0 \<le> e - b \<and> \<lfloor>e - b\<rfloor> < int (length iops)"
  shows "count_iops es b iops
     = Inr (map (\<lambda>k. iops ! k + int (length (filter (\<lambda>e. \<lfloor>e - b\<rfloor> = int k) es)))
              [0..<length iops])"
  using assms
proof (induction es arbitrary: iops)
  case Nil
  then show ?case by (simp add: map_nth)
next
  case (Cons e es)
  let ?i = "\<lfloor>e - b\<rfloor>"
  let ?j = "nat ?i"
  let ?iops' = "iops[?j := iops ! ?j + 1]"
  have e: "0 \<le> e - b" "?i < int (length iops)" using Cons.prems by simp_all
  then have i0: "0 \<le> ?i" by simp
  have j: "?j < length iops" using e(2) i0 by linarith
  have rest: "\<forall>e \<in> set es. 0 \<le> e - b \<and> \<lfloor>e - b\<rfloor> < int (length ?iops')"
    using Cons.prems by simp
  have lo: "- int (length iops) \<le> ?i" "\<not> ?i < 0" using i0 by linarith+
  have cond: "- int (length iops) \<le> ?i \<and> ?i < int (length iops)"
    using lo e by blast
  have step: "count_iops (e # es) b iops = count_iops es b ?iops'"
    by (simp only: count_iops.simps Let_def py_int_nonneg [OF e(1)] cond lo simp_thms if_True if_False)
  have "map (\<lambda>k. ?iops' ! k + int (length (filter (\<lambda>e. \<lfloor>e - b\<rfloor> = int k) es))) [0..<length iops]
      = map (\<lambda>k. iops ! k + int (length (filter (\<lambda>e. \<lfloor>e - b\<rfloor> = int k) (e # es)))) [0..<length iops]"
  proof (rule map_cong [OF refl])
    fix k assume "k \<in> set [0..<length iops]"
    then have k: "k < length iops" by simp
    show "?iops' ! k + int (length (filter (\<lambda>e. \<lfloor>e - b\<rfloor> = int k) es))
        = iops ! k + int (length (filter (\<lambda>e. \<lfloor>e - b\<rfloor> = int k) (e # es)))"
    proof (cases "k = ?j")
      case True
      then have "?i = int k" using i0 by simp
      then show ?thesis using True j by simp
    next
      case False
      then have "?i \<noteq> int k" by auto
      then show ?thesis using False k by simp
    qed
  qed
  with step Cons.IH [OF rest] show ?case by simp
qed

text \<open>
  Claim C4, as the code has it. When some slot is completed and every completed slot has
  a positive start stamp and ends after it starts, the aggregator takes \<open>base_t\<close> to
  be the least start stamp of the completed slots, builds
  \<open>floor (max end - base_t) + 1\<close> buckets and counts every completed slot into the
  bucket \<open>floor (end - base_t)\<close>.
\<close>

theorem iops_buckets_floor:
  assumes "\<exists>r \<in> set res. finish r"
    and "\<forall>r \<in> set res. finish r \<longrightarrow> 0 < start r \<and> start r < endt r"
  shows "let fin = filter finish res;
             base_t = Min (set (map start fin));
             total_lat = nat \<lfloor>Max (set (map endt fin)) - base_t\<rfloor> + 1
         in collect_statistics res
              = Inr (map (\<lambda>r. real (rlen r) / (endt r - start r) / (1000 * 1000)) fin,
                     map (\<lambda>k. int (length (filter (\<lambda>r. \<lfloor>endt r - base_t\<rfloor> = int k) fin)))
                       [0..<total_lat],
                     map (\<lambda>r. endt r - start r) fin)"
proof -
  let ?fin = "filter finish res"
  let ?base = "Min (set (map start ?fin))"
  let ?ends = "map endt ?fin"
  let ?n = "nat \<lfloor>Max (set ?ends) - ?base\<rfloor> + 1"
  have ne: "?fin \<noteq> []"
    using assms(1) by (simp add: filter_empty_conv)
  have ok: "\<forall>r \<in> set ?fin. finish r \<and> start r \<noteq> 0 \<and> endt r \<noteq> start r"
    using assms(2) by auto
  have loop: "collect_loop res 0 [] [] []
      = Inr (?base, ?ends,
             map (\<lambda>r. real (rlen r) / (endt r - start r) / (1000 * 1000)) ?fin,
             map (\<lambda>r. endt r - start r) ?fin)"
    using collect_loop_base [OF ok ne] by (subst collect_loop_filter) simp
  have base_le: "?base \<le> start r" if "r \<in> set ?fin" for r
    using that by (intro Min_le) simp_all
  have end_le: "endt r \<le> Max (set ?ends)" if "r \<in> set ?fin" for r
    using that by (intro Max_ge) simp_all
  have pos: "0 \<le> endt r - ?base" if "r \<in> set ?fin" for r
  proof -
    have "start r < endt r" using that assms(2) by simp
    with base_le [OF that] show ?thesis by simp
  qed
  obtain r0 where r0: "r0 \<in> set ?fin" using ne by (cases ?fin) auto
  have max_pos: "0 \<le> Max (set ?ends) - ?base"
    using pos [OF r0] end_le [OF r0] by simp
  define n where "n = nat \<lfloor>Max (set ?ends) - ?base\<rfloor> + 1"
  have fl: "0 \<le> \<lfloor>Max (set ?ends) - ?base\<rfloor>"
    using max_pos by simp
  have total: "nat (py_int (Max (set ?ends) - ?base) + 1) = n"
    unfolding py_int_nonneg [OF max_pos] n_def using fl by linarith
  have bound: "\<forall>e \<in> set ?ends. 0 \<le> e - ?base
      \<and> \<lfloor>e - ?base\<rfloor> < int (length (replicate n (0::int)))"
  proof
    fix e assume "e \<in> set ?ends"
    then obtain r where r: "r \<in> set ?fin" "e = endt r" by auto
    have "\<lfloor>e - ?base\<rfloor> \<le> \<lfloor>Max (set ?ends) - ?base\<rfloor>"
      using end_le [OF r(1)] r(2) by (intro floor_mono) simp
    moreover have "0 \<le> \<lfloor>Max (set ?ends) - ?base\<rfloor>"
      using max_pos by simp
    ultimately have "\<lfloor>e - ?base\<rfloor> < int n"
      unfolding n_def by linarith
    then show "0 \<le> e - ?base \<and> \<lfloor>e - ?base\<rfloor> < int (length (replicate n (0::int)))"
      using pos [OF r(1)] r(2) by simp
  qed
  have cnt: "replicate n (0::int) ! k + int (length (filter (\<lambda>e. \<lfloor>e - ?base\<rfloor> = int k) ?ends))
      = int (length (filter (\<lambda>r. \<lfloor>endt r - ?base\<rfloor> = int k) ?fin))"
    if "k \<in> set [0..<length (replicate n (0::int))]" for k
  proof -
    have "length (filter (\<lambda>e. \<lfloor>e - ?base\<rfloor> = int k) ?ends)
        = length (filter (\<lambda>r. \<lfloor>endt r - ?base\<rfloor> = int k) ?fin)"
      by (simp only: filter_map length_map comp_def)
    then show ?thesis using that by simp
  qed
  have iops: "count_iops ?ends ?base (replicate n 0)
      = Inr (map (\<lambda>k. int (length (filter (\<lambda>r. \<lfloor>endt r - ?base\<rfloor> = int k) ?fin))) [0..<n])"
    unfolding count_iops_buckets [OF bound] using cnt
    by (simp only: sum.inject length_replicate cong: map_cong)
  have ends_ne: "?ends \<noteq> []" using ne by simp
  have bw_ne: "length (map (\<lambda>r. real (rlen r) / (endt r - start r) / (1000 * 1000)) ?fin) \<noteq> 0"
    using ne by simp
  have "collect_statistics res
      = Inr (map (\<lambda>r. real (rlen r) / (endt r - start r) / (1000 * 1000)) ?fin,
             map (\<lambda>k. int (length (filter (\<lambda>r. \<lfloor>endt r - ?base\<rfloor> = int k) ?fin))) [0..<n],
             map (\<lambda>r. endt r - start r) ?fin)"
    unfolding collect_statistics_def loop
    by (simp only: sum.case prod.case bw_ne ends_ne if_False Let_def total iops)
  then show ?thesis
    unfolding n_def Let_def .
qed

theorem iops_buckets_floor_witness:
  "collect_statistics
     [\<lparr>start = 1, endt = 3 / 2, rlen = 10, finish = True\<rparr>,
      \<lparr>start = 2, endt = 7 / 2, rlen = 4, finish = True\<rparr>,
      \<lparr>start = 9, endt = 0, rlen = 0, finish = False\<rparr>]
   = Inr ([1 / 50000, 1 / 375000], [1, 0, 1], [1 / 2, 3 / 2])"
  using iops_buckets_floor
    [of "[\<lparr>start = 1, endt = 3 / 2, rlen = 10, finish = True\<rparr>,
          \<lparr>start = 2, endt = 7 / 2, rlen = 4, finish = True\<rparr>,
          \<lparr>start = 9, endt = 0, rlen = 0, finish = False\<rparr>]"]
  by (simp add: Let_def upt_conv_Cons)

theorem iops_buckets_ceil_counterexample:
  "collect_statistics [\<lparr>start = 1, endt = 5 / 2, rlen = 10, finish = True\<rparr>]
     = Inr ([1 / 150000], [0, 1], [3 / 2])
   \<and> spec_bucket_count [\<lparr>start = 1, endt = 5 / 2, rlen = 10, finish = True\<rparr>] = 3"
  by (simp add: collect_statistics_def spec_bucket_count_def py_int_def Let_def numeral_2_eq_2)

section \<open>Properties of the completion callback\<close>

lemma collect_statistics_filter:
  "collect_statistics res = collect_statistics (filter finish res)"
  unfolding collect_statistics_def
  by (subst collect_loop_filter) (rule refl)

lemma filter_finish_update:
  assumes "tid < length read_res" and "\<not> finish x"
  shows "filter finish (read_res[tid := x])
     = filter finish (take tid read_res @ drop (Suc tid) read_res)"
  using assms by (simp add: upd_conv_take_nth_drop)

text \<open>
  Claim C5, as the code has it. When the read of slot \<open>tid\<close> fails and the callback
  is called without data, the callback stamps the end time and then raises TypeError at
  \<^verbatim>\<open>len(data)\<close>: the slot keeps its start stamp, its byte count and
  \<open>finish = False\<close>, only its end stamp changes, and the statistics are those of the
  slots without slot \<open>tid\<close>.
\<close>

theorem failed_read_slot_not_finished:
  assumes "tid < length read_res" and "\<not> finish (read_res ! tid)"
  shows "aio_read_complete tid now None read_res
           = (Some TypeError, read_res[tid := (read_res ! tid)\<lparr>endt := now\<rparr>])
     \<and> \<not> finish (snd (aio_read_complete tid now None read_res) ! tid)
     \<and> rlen (snd (aio_read_complete tid now None read_res) ! tid) = rlen (read_res ! tid)
     \<and> start (snd (aio_read_complete tid now None read_res) ! tid) = start (read_res ! tid)
     \<and> endt (snd (aio_read_complete tid now None read_res) ! tid) = now
     \<and> collect_and_print_statistics (snd (aio_read_complete tid now None read_res))
         = collect_and_print_statistics (take tid read_res @ drop (Suc tid) read_res)"
proof -
  let ?x = "(read_res ! tid)\<lparr>endt := now\<rparr>"
  have cb: "aio_read_complete tid now None read_res = (Some TypeError, read_res[tid := ?x])"
    using assms(1) by (simp add: aio_read_complete_def)
  have nf: "\<not> finish ?x" using assms(2) by simp
  have "collect_statistics (read_res[tid := ?x])
      = collect_statistics (take tid read_res @ drop (Suc tid) read_res)"
    by (subst collect_statistics_filter, subst filter_finish_update [OF assms(1) nf],
        subst collect_statistics_filter [symmetric]) (rule refl)
  then have "collect_and_print_statistics (read_res[tid := ?x])
      = collect_and_print_statistics (take tid read_res @ drop (Suc tid) read_res)"
    by (simp add: collect_and_print_statistics_def)
  with cb assms show ?thesis by simp
qed

theorem failed_read_slot_not_finished_witness:
  "aio_read_complete 1 7 None
     [\<lparr>start = 4, endt = 6, rlen = 3, finish = True\<rparr>,
      \<lparr>start = 5, endt = 0, rlen = 0, finish = False\<rparr>]
   = (Some TypeError,
      [\<lparr>start = 4, endt = 6, rlen = 3, finish = True\<rparr>,
       \<lparr>start = 5, endt = 7, rlen = 0, finish = False\<rparr>])
   \<and> collect_and_print_statistics
       (snd (aio_read_complete 1 7 None
         [\<lparr>start = 4, endt = 6, rlen = 3, finish = True\<rparr>,
          \<lparr>start = 5, endt = 0, rlen = 0, finish = False\<rparr>]))
     = collect_and_print_statistics [\<lparr>start = 4, endt = 6, rlen = 3, finish = True\<rparr>]"
proof -
  let ?res = "[\<lparr>start = 4, endt = 6, rlen = 3, finish = True\<rparr>,
               \<lparr>start = 5, endt = 0, rlen = 0, finish = False\<rparr>]"
  have a: "1 < length ?res" by simp
  have b: "\<not> finish (?res ! 1)" by simp
  have c: "take 1 ?res @ drop (Suc 1) ?res = [\<lparr>start = 4, endt = 6, rlen = 3, finish = True\<rparr>]"
    by simp
  have d: "?res[1 := (?res ! 1)\<lparr>endt := 7\<rparr>]
      = [\<lparr>start = 4, endt = 6, rlen = 3, finish = True\<rparr>,
         \<lparr>start = 5, endt = 7, rlen = 0, finish = False\<rparr>]"
    by simp
  from failed_read_slot_not_finished [OF a b, of 7]
  show ?thesis unfolding c d by blast
qed

theorem failed_read_end_stamped_counterexample:
  "obj_aio_read 0 5 (bench_slots 1) \<lparr>key = ''a'', len = 10\<rparr>
     = Inr ([\<lparr>start = 5, endt = 0, rlen = 0, finish = False\<rparr>], (''a'', 10, 0))
   \<and> aio_read_complete 0 7 None [\<lparr>start = 5, endt = 0, rlen = 0, finish = False\<rparr>]
     = (Some TypeError, [\<lparr>start = 5, endt = 7, rlen = 0, finish = False\<rparr>])
   \<and> endt (snd (aio_read_complete 0 7 None
        [\<lparr>start = 5, endt = 0, rlen = 0, finish = False\<rparr>]) ! 0) \<noteq> 0"
  by (simp add: obj_aio_read_def aio_read_complete_def bench_slots_def)

section \<open>Properties of the worker pool\<close>

lemma length_removeAll_mem:
  "t \<in> set xs \<Longrightarrow> Suc (length (removeAll t xs)) \<le> length xs"
  using length_removeAll_less [of t xs] by simp

lemma pool_step_invariant:
  assumes "pool_step reads_num threads_num ev s = Some s'"
    and "length (running s) + length (returning s) \<le> threads_num"
    and "length (queued s) + length (running s) + length (outstanding s) + length (completed s)
          \<le> submitted s"
    and "submitted s \<le> reads_num"
  shows "length (running s') + length (returning s') \<le> threads_num
     \<and> length (queued s') + length (running s') + length (outstanding s') + length (completed s')
          \<le> submitted s'
     \<and> submitted s' \<le> reads_num"
proof (cases ev)
  case Submit
  with assms show ?thesis by (auto split: if_splits)
next
  case Take
  with assms show ?thesis by (auto split: if_splits list.splits)
next
  case (Issue t)
  with assms have t: "t \<in> set (running s)" by (auto split: if_splits)
  from length_removeAll_mem [OF t] Issue assms show ?thesis
    by (auto split: if_splits)
next
  case (Return t)
  with assms have t: "t \<in> set (returning s)" by (auto split: if_splits)
  from length_removeAll_mem [OF t] Return assms show ?thesis
    by (auto split: if_splits)
next
  case (Complete t)
  with assms have t: "t \<in> set (outstanding s)" by (auto split: if_splits)
  from length_removeAll_mem [OF t] Complete assms show ?thesis
    by (auto split: if_splits)
qed

lemma pool_run_invariant:
  "pool_run reads_num threads_num evs s = Some s' \<Longrightarrow>
   length (running s) + length (returning s) \<le> threads_num \<Longrightarrow>
   length (queued s) + length (running s) + length (outstanding s) + length (completed s)
     \<le> submitted s \<Longrightarrow>
   submitted s \<le> reads_num \<Longrightarrow>
   length (running s') + length (returning s') \<le> threads_num
     \<and> length (queued s') + length (running s') + length (outstanding s') + length (completed s')
          \<le> submitted s'
     \<and> submitted s' \<le> reads_num"
proof (induction evs arbitrary: s)
  case Nil
  then show ?case by simp
next
  case (Cons ev evs)
  from Cons.prems(1) obtain s1 where
    s1: "pool_step reads_num threads_num ev s = Some s1"
      "pool_run reads_num threads_num evs s1 = Some s'"
    by (auto split: option.splits)
  from pool_step_invariant [OF s1(1) Cons.prems(2-4)]
  show ?case by (intro Cons.IH [OF s1(2)]) simp_all
qed

text \<open>
  Claim C1, as the code has it. In every state that the pool reaches from the start of
  the submissions, at most \<open>W\<close> calls of \<^verbatim>\<open>obj_aio_read\<close> are on a worker, and
  the number of reads issued and not yet completed is at most the number of submitted
  requests, which is at most \<open>N\<close>.
\<close>

theorem pool_bounds_running_calls:
  assumes "pool_run reads_num threads_num evs pool_init = Some s"
  shows "length (running s) + length (returning s) \<le> threads_num
     \<and> length (outstanding s) \<le> submitted s
     \<and> submitted s \<le> reads_num"
proof -
  have "length (running s) + length (returning s) \<le> threads_num
     \<and> length (queued s) + length (running s) + length (outstanding s) + length (completed s)
          \<le> submitted s
     \<and> submitted s \<le> reads_num"
    by (rule pool_run_invariant [OF assms]) (simp_all add: pool_init_def)
  then show ?thesis by simp
qed

theorem pool_bounds_running_calls_witness:
  "pool_run 3 2 [Submit, Submit, Take, Take, Issue 0, Submit] pool_init
     = Some \<lparr>submitted = 3, queued = [2], running = [1], returning = [0],
              outstanding = [0], completed = []\<rparr>
   \<and> length (running \<lparr>submitted = 3, queued = [2], running = [1], returning = [0],
                    outstanding = [0], completed = []\<rparr>)
     + length (returning \<lparr>submitted = 3, queued = [2], running = [1], returning = [0],
                    outstanding = [0], completed = []\<rparr>) \<le> 2
   \<and> length (outstanding \<lparr>submitted = 3, queued = [2], running = [1], returning = [0],
                    outstanding = [0], completed = []\<rparr>) \<le> 3"
proof -
  have run: "pool_run 3 2 [Submit, Submit, Take, Take, Issue 0, Submit] pool_init
      = Some \<lparr>submitted = 3, queued = [2], running = [1], returning = [0],
               outstanding = [0], completed = []\<rparr>"
    by (simp add: pool_init_def)
  from pool_bounds_running_calls [OF run] run show ?thesis by simp
qed

theorem outstanding_exceeds_workers_counterexample:
  "pool_run 2 1 [Submit, Submit, Take, Issue 0, Return 0, Take, Issue 1] pool_init
     = Some \<lparr>submitted = 2, queued = [], running = [], returning = [1],
              outstanding = [0, 1], completed = []\<rparr>
   \<and> \<not> spec_outstanding_bounded 1
         \<lparr>submitted = 2, queued = [], running = [], returning = [1],
          outstanding = [0, 1], completed = []\<rparr>"
  by (simp add: pool_init_def spec_outstanding_bounded_def)

section \<open>Properties of the Zipf sampler\<close>











section \<open>Slots and requests in bench_test\<close>










end
